theory Spec2Isabelle
  imports Complex_Main
begin

section \<open>Errors raised by the modelled Python code\<close>

text \<open>
  Every exception of the source is a value: \<open>ValueError\<close> is raised by
  \<^verbatim>\<open>str.index\<close> on a missing character and by \<^verbatim>\<open>int(s, 2)\<close> on a string that
  is not a numeral, \<open>ZeroDivisionError\<close> by \<^verbatim>\<open>%\<close> and \<^verbatim>\<open>//\<close> with divisor zero,
  \<open>EngineError\<close> stands for any exception of an external collaborator
  (simulator, remote hardware, floating-point library).
\<close>

datatype error = ValueError | ZeroDivisionError | EngineError

section \<open>The index codec: \<^verbatim>\<open>text_to_index\<close> and \<^verbatim>\<open>index_to_text\<close>\<close>

text \<open>
  \<^verbatim>\<open>self.charset = string.ascii_lowercase + string.ascii_uppercase + string.digits\<close>
\<close>

definition charset_init :: string where
  "charset_init = ''abcdefghijklmnopqrstuvwxyzABCDEFGHIJKLMNOPQRSTUVWXYZ0123456789''"

text \<open>\<^verbatim>\<open>self.charset.index(char)\<close>: the first position of the character, or ValueError.\<close>

fun index_of :: "'a list \<Rightarrow> 'a \<Rightarrow> error + nat" where
  "index_of [] c = Inl ValueError"
| "index_of (x # xs) c =
     (if x = c then Inr 0
      else (case index_of xs c of Inl e \<Rightarrow> Inl e | Inr k \<Rightarrow> Inr (Suc k)))"

text \<open>\<^verbatim>\<open>calculate_search_space\<close>: \<^verbatim>\<open>len(self.charset) ** length\<close>.\<close>

definition calculate_search_space :: "string \<Rightarrow> nat \<Rightarrow> int" where
  "calculate_search_space cs len = int (length cs) ^ len"

text \<open>
  The loop of \<^verbatim>\<open>text_to_index\<close> over \<^verbatim>\<open>enumerate(reversed(text))\<close>:
  \<^verbatim>\<open>index += self.charset.index(char) * (base ** i)\<close>. The arguments are the
  alphabet, the running \<open>index\<close>, the position \<open>i\<close> and what is left of the
  reversed text.
\<close>

fun text_to_index_loop :: "string \<Rightarrow> int \<Rightarrow> nat \<Rightarrow> string \<Rightarrow> error + int" where
  "text_to_index_loop cs index i [] = Inr index"
| "text_to_index_loop cs index i (ch # rest) =
     (case index_of cs ch of
        Inl e \<Rightarrow> Inl e
      | Inr k \<Rightarrow> text_to_index_loop cs (index + int k * int (length cs) ^ i) (Suc i) rest)"

definition text_to_index :: "string \<Rightarrow> string \<Rightarrow> error + int" where
  "text_to_index cs text = text_to_index_loop cs 0 0 (rev text)"

text \<open>
  The loop of \<^verbatim>\<open>index_to_text\<close>, \<^verbatim>\<open>for _ in range(length)\<close>:
  \<^verbatim>\<open>text.append(self.charset[index % base]); index //= base\<close>. Python's \<^verbatim>\<open>%\<close>
  and \<^verbatim>\<open>//\<close> round towards minus infinity, as \<open>mod\<close> and \<open>div\<close> on \<open>int\<close> do;
  with a positive base the remainder is a position of the alphabet, so the
  subscript never raises; with an empty alphabet \<^verbatim>\<open>%\<close> raises.
  There is no comparison of \<open>index\<close> with \<open>base ** length\<close> in the source.
\<close>

fun index_to_text_loop :: "string \<Rightarrow> int \<Rightarrow> nat \<Rightarrow> string \<Rightarrow> error + string" where
  "index_to_text_loop cs index 0 text = Inr text"
| "index_to_text_loop cs index (Suc n) text =
     (if length cs = 0 then Inl ZeroDivisionError
      else index_to_text_loop cs (index div int (length cs)) n
             (text @ [cs ! nat (index mod int (length cs))]))"

text \<open>\<^verbatim>\<open>return ''.join(reversed(text))\<close>\<close>

definition index_to_text :: "string \<Rightarrow> int \<Rightarrow> nat \<Rightarrow> error + string" where
  "index_to_text cs index len =
     (case index_to_text_loop cs index len [] of Inl e \<Rightarrow> Inl e | Inr text \<Rightarrow> Inr (rev text))"

section \<open>Gate sequences: \<^verbatim>\<open>_oracle\<close>, \<^verbatim>\<open>_diffusion\<close>, \<^verbatim>\<open>create_grover_circuit\<close>\<close>

text \<open>
  The builders call \<^verbatim>\<open>qc.x\<close>, \<^verbatim>\<open>qc.h\<close> and \<^verbatim>\<open>qc.mcx\<close> (in the second script
  \<^verbatim>\<open>qml.PauliX\<close>, \<^verbatim>\<open>qml.Hadamard\<close>, \<^verbatim>\<open>qml.MultiControlledX\<close> with the last
  wire as target); each call appends one gate. Wires are Python integers.
\<close>

datatype gate = X int | H int | MCX "int list" int

text \<open>\<^verbatim>\<open>format(k, 'b')\<close> for \<open>k \<ge> 0\<close>: the binary digits, most significant first.\<close>

fun bin_digits :: "nat \<Rightarrow> string" where
  "bin_digits k =
     (if k < 2 then [if k = 0 then CHR ''0'' else CHR ''1'']
      else bin_digits (k div 2) @ [if k mod 2 = 0 then CHR ''0'' else CHR ''1''])"

declare bin_digits.simps [simp del]

text \<open>
  \<^verbatim>\<open>format(target_index, f'0{n_qubits}b')\<close>: zero padding to the width, after
  the sign when there is one; a numeral longer than the width is not cut.
\<close>

definition format_bits :: "int \<Rightarrow> nat \<Rightarrow> string" where
  "format_bits v w =
     (if v < 0
      then CHR ''-'' # replicate (w - 1 - length (bin_digits (nat (- v)))) CHR ''0''
             @ bin_digits (nat (- v))
      else replicate (w - length (bin_digits (nat v))) CHR ''0'' @ bin_digits (nat v))"

text \<open>
  \<^verbatim>\<open>for qubit, b in enumerate(bits): if b == '0': qc.x(qubit)\<close>, started at
  position \<open>qubit\<close>.
\<close>

fun flip_zero_bits :: "gate list \<Rightarrow> int \<Rightarrow> string \<Rightarrow> gate list" where
  "flip_zero_bits qc qubit [] = qc"
| "flip_zero_bits qc qubit (b # bits) =
     flip_zero_bits (if b = CHR ''0'' then qc @ [X qubit] else qc) (qubit + 1) bits"

text \<open>
  \<^verbatim>\<open>_oracle(qc, n_qubits, target_index)\<close>, here \<open>oracle_gates\<close>. The controlled
  gate is emitted only under \<^verbatim>\<open>if n_qubits > 1\<close>; the two Hadamard gates around
  it are emitted for every width, and there is no other branch.
\<close>

definition oracle_gates :: "gate list \<Rightarrow> nat \<Rightarrow> int \<Rightarrow> gate list" where
  "oracle_gates qc n_qubits target_index =
     (let bits = format_bits target_index n_qubits;
          qc1 = flip_zero_bits qc 0 bits;
          qc2 = qc1 @ [H (int n_qubits - 1)];
          qc3 = (if n_qubits > 1
                 then qc2 @ [MCX (map int [0..<n_qubits - 1]) (int n_qubits - 1)]
                 else qc2);
          qc4 = qc3 @ [H (int n_qubits - 1)]
      in flip_zero_bits qc4 0 bits)"

text \<open>
  \<^verbatim>\<open>_diffusion(qc, n_qubits)\<close>: the first loop emits \<^verbatim>\<open>h(qubit); x(qubit)\<close> qubit
  by qubit, the last one \<^verbatim>\<open>x(qubit); h(qubit)\<close>.
\<close>

definition diffusion :: "gate list \<Rightarrow> nat \<Rightarrow> gate list" where
  "diffusion qc n_qubits =
     (let qc1 = foldl (\<lambda>c qubit. c @ [H (int qubit), X (int qubit)]) qc [0..<n_qubits];
          qc2 = qc1 @ [H (int n_qubits - 1)];
          qc3 = (if n_qubits > 1
                 then qc2 @ [MCX (map int [0..<n_qubits - 1]) (int n_qubits - 1)]
                 else qc2);
          qc4 = qc3 @ [H (int n_qubits - 1)]
      in foldl (\<lambda>c qubit. c @ [X (int qubit), H (int qubit)]) qc4 [0..<n_qubits])"

text \<open>
  \<^verbatim>\<open>create_grover_circuit\<close>: a circuit on \<open>n_qubits\<close> qubits and as many
  classical bits, the gates, and the final \<^verbatim>\<open>measure(range(n), range(n))\<close>.
\<close>

record circuit =
  num_qubits :: nat
  gates :: "gate list"
  measure :: "int list \<times> int list"

definition create_grover_circuit :: "nat \<Rightarrow> int \<Rightarrow> nat \<Rightarrow> circuit" where
  "create_grover_circuit n_qubits target_index iterations =
     (let qc = foldl (\<lambda>c qubit. c @ [H (int qubit)]) [] [0..<n_qubits];
          qc = foldl (\<lambda>c _. diffusion (oracle_gates c n_qubits target_index) n_qubits) qc
                 [0..<iterations]
      in \<lparr>num_qubits = n_qubits, gates = qc,
          measure = (map int [0..<n_qubits], map int [0..<n_qubits])\<rparr>)"

section \<open>The action of a gate sequence on an amplitude vector\<close>

text \<open>
  The execution engines are external. Their gates have the textbook meaning,
  written here on amplitude vectors indexed by the values of the qubits:
  position \<open>i\<close> of the \<open>bool list\<close> is the value of qubit \<open>i\<close>. \<open>X\<close> exchanges
  the two values of its qubit, \<open>H\<close> is the Hadamard matrix with entries
  \<open>\<plusminus> 1 / sqrt 2\<close>, \<open>MCX\<close> exchanges the two values of the target where every
  control is one. The equations are meant for wires of the register
  (\<open>gate_ok\<close> below), which is what the builders emit in range.
\<close>

type_synonym state = "bool list \<Rightarrow> complex"

fun apply_gate :: "gate \<Rightarrow> state \<Rightarrow> state" where
  "apply_gate (X q) \<psi> = (\<lambda>bs. \<psi> (bs[nat q := \<not> bs ! nat q]))"
| "apply_gate (H q) \<psi> =
     (\<lambda>bs. (\<psi> (bs[nat q := False]) + (if bs ! nat q then - 1 else 1) * \<psi> (bs[nat q := True]))
            / complex_of_real (sqrt 2))"
| "apply_gate (MCX ctrls t) \<psi> =
     (\<lambda>bs. \<psi> (if list_all (\<lambda>c. bs ! nat c) ctrls then bs[nat t := \<not> bs ! nat t] else bs))"

definition simulate :: "gate list \<Rightarrow> state \<Rightarrow> state" where
  "simulate gs \<psi> = foldl (\<lambda>s g. apply_gate g s) \<psi> gs"

text \<open>
  The basis state numbered \<open>k\<close> in a register of \<open>n\<close> qubits, under the
  numbering \<^verbatim>\<open>_oracle\<close> itself uses: qubit \<open>i\<close> holds character \<open>i\<close> of
  \<^verbatim>\<open>format(k, f'0{n}b')\<close>.
\<close>

definition basis_state :: "nat \<Rightarrow> int \<Rightarrow> bool list" where
  "basis_state n k = map (\<lambda>b. b = CHR ''1'') (format_bits k n)"

text \<open>Every wire of a gate is a qubit of an \<open>n\<close>-qubit register.\<close>

fun gate_ok :: "nat \<Rightarrow> gate \<Rightarrow> bool" where
  "gate_ok n (X q) = (0 \<le> q \<and> q < int n)"
| "gate_ok n (H q) = (0 \<le> q \<and> q < int n)"
| "gate_ok n (MCX ctrls t) =
     (0 \<le> t \<and> t < int n \<and> list_all (\<lambda>c. 0 \<le> c \<and> c < int n \<and> c \<noteq> t) ctrls)"

text \<open>
  The values of the qubits after the \<open>X\<close> gates that \<open>flip_zero_bits\<close> emits
  for \<open>bits\<close> from position \<open>q\<close> on: the qubit at position \<open>q + i\<close> is
  negated when character \<open>i\<close> of \<open>bits\<close> is \<open>0\<close>.
\<close>

fun flip_at :: "nat \<Rightarrow> string \<Rightarrow> bool list \<Rightarrow> bool list" where
  "flip_at q [] bs = bs"
| "flip_at q (b # bits) bs =
     (let bs' = flip_at (Suc q) bits bs
      in if b = CHR ''0'' then bs'[q := \<not> bs' ! q] else bs')"

section \<open>Classical search\<close>

text \<open>
  \<^verbatim>\<open>itertools.product(self.charset, repeat=length)\<close>: all tuples, the first
  component varying slowest.
\<close>

fun itertools_product :: "'a list \<Rightarrow> nat \<Rightarrow> 'a list list" where
  "itertools_product cs 0 = [[]]"
| "itertools_product cs (Suc r) =
     concat (map (\<lambda>c. map (\<lambda>rest. c # rest) (itertools_product cs r)) cs)"

text \<open>
  The loop of \<^verbatim>\<open>classical_bruteforce\<close>; the digest \<^verbatim>\<open>simple_hash\<close> (a truncated
  MD5) is a parameter. The elapsed time is not modelled.
\<close>

fun bruteforce_loop ::
  "(string \<Rightarrow> string) \<Rightarrow> string \<Rightarrow> nat \<Rightarrow> string list \<Rightarrow> string option \<times> nat" where
  "bruteforce_loop simple_hash target_hash attempts [] = (None, attempts)"
| "bruteforce_loop simple_hash target_hash attempts (candidate # rest) =
     (if simple_hash candidate = target_hash then (Some candidate, attempts + 1)
      else bruteforce_loop simple_hash target_hash (attempts + 1) rest)"

definition classical_bruteforce ::
  "(string \<Rightarrow> string) \<Rightarrow> string \<Rightarrow> string \<Rightarrow> nat \<Rightarrow> string option \<times> nat" where
  "classical_bruteforce simple_hash cs target_hash len =
     bruteforce_loop simple_hash target_hash 0 (itertools_product cs len)"

section \<open>Interpreting the measurement counts\<close>

text \<open>
  \<^verbatim>\<open>max(counts.items(), key=lambda x: x[1])\<close>: the dictionary is the list of
  its items in iteration order; \<^verbatim>\<open>max\<close> keeps the first item whose count no
  later item exceeds.
\<close>

fun max_item :: "string \<times> int \<Rightarrow> (string \<times> int) list \<Rightarrow> string \<times> int" where
  "max_item best [] = best"
| "max_item best (item # items) =
     max_item (if snd best < snd item then item else best) items"

text \<open>
  \<^verbatim>\<open>int(s, 2)\<close> on a string of binary digits. The empty string raises
  ValueError. (Python also accepts a sign, a \<^verbatim>\<open>0b\<close> prefix, blanks around the
  numeral and single underscores; the keys of a measurement distribution have
  none of these, and the model answers ValueError for them.)
\<close>

fun int_base2_loop :: "int \<Rightarrow> string \<Rightarrow> error + int" where
  "int_base2_loop acc [] = Inr acc"
| "int_base2_loop acc (c # s) =
     (if c = CHR ''0'' then int_base2_loop (2 * acc) s
      else if c = CHR ''1'' then int_base2_loop (2 * acc + 1) s
      else Inl ValueError)"

definition int_base2 :: "string \<Rightarrow> error + int" where
  "int_base2 s = (if s = [] then Inl ValueError else int_base2_loop 0 s)"

type_synonym counts = "(string \<times> int) list"

type_synonym search_result = "bool \<times> string option \<times> counts"

text \<open>
  The end of \<^verbatim>\<open>quantum_search\<close> (\<^verbatim>\<open># parse result\<close>); the result is
  \<^verbatim>\<open>(success, measured_text, counts)\<close>, without the elapsed time.
\<close>

definition parse_result :: "string \<Rightarrow> counts \<Rightarrow> int \<Rightarrow> nat \<Rightarrow> error + search_result" where
  "parse_result cs cnts target_index len =
     (case cnts of
        [] \<Rightarrow> Inr (False, None, [])
      | item # items \<Rightarrow>
          (case int_base2 (fst (max_item item items)) of
             Inl e \<Rightarrow> Inl e
           | Inr measured_index \<Rightarrow>
               (case index_to_text cs measured_index len of
                  Inl e \<Rightarrow> Inl e
                | Inr measured_text \<Rightarrow>
                    Inr (measured_index = target_index, Some measured_text, cnts))))"

text \<open>
  A key of a measurement distribution: a non-empty string of binary digits;
  and the number it denotes, most significant digit first.
\<close>

definition bitstring :: "string \<Rightarrow> bool" where
  "bitstring s = (s \<noteq> [] \<and> list_all (\<lambda>c. c = CHR ''0'' \<or> c = CHR ''1'') s)"

definition binary_value :: "string \<Rightarrow> int" where
  "binary_value s = foldl (\<lambda>v c. 2 * v + (if c = CHR ''1'' then 1 else 0)) 0 s"

section \<open>The search object and its backends\<close>

datatype backend = AerSimulator | IBMBackend string

datatype service = QiskitRuntimeService

record cracker =
  charset :: string
  attempts :: int
  quantum_iterations :: int
  service :: "service option"
  backend :: "backend option"

text \<open>
  What \<^verbatim>\<open>quantum_search\<close> takes from outside: the digest, the two
  floating-point expressions \<^verbatim>\<open>math.ceil(math.log2(search_space))\<close> and
  \<^verbatim>\<open>int(math.pi / 4 * math.sqrt(search_space))\<close>, the run on the Aer simulator,
  and the run on IBM hardware together with the parsing of its result. Each
  may raise.
\<close>

record env =
  simple_hash :: "string \<Rightarrow> string"
  ceil_log2 :: "int \<Rightarrow> error + nat"
  quarter_pi_sqrt :: "int \<Rightarrow> error + int"
  run_aer :: "circuit \<Rightarrow> error + counts"
  run_ibm :: "service option \<Rightarrow> string \<Rightarrow> circuit \<Rightarrow> error + counts"

text \<open>The first loop of \<^verbatim>\<open>quantum_search\<close>, which finds \<open>target_index\<close>.\<close>

fun find_target ::
  "(string \<Rightarrow> string) \<Rightarrow> string \<Rightarrow> string \<Rightarrow> string list \<Rightarrow> error + int option" where
  "find_target h cs target_hash [] = Inr None"
| "find_target h cs target_hash (candidate # rest) =
     (if h candidate = target_hash
      then (case text_to_index cs candidate of Inl e \<Rightarrow> Inl e | Inr i \<Rightarrow> Inr (Some i))
      else find_target h cs target_hash rest)"

text \<open>
  The run on the selected backend and the interpretation. On the simulator an
  exception propagates; on IBM hardware it is caught and the result is
  \<^verbatim>\<open>(False, None, 0, {})\<close>. The case of no backend does not occur:
  \<^verbatim>\<open>quantum_search\<close> installs the simulator before the run.
\<close>

definition execute ::
  "env \<Rightarrow> cracker \<Rightarrow> circuit \<Rightarrow> int \<Rightarrow> nat \<Rightarrow> error + search_result" where
  "execute e self qc target_index len =
     (case backend self of
        None \<Rightarrow> Inl EngineError
      | Some AerSimulator \<Rightarrow>
          (case run_aer e qc of
             Inl err \<Rightarrow> Inl err
           | Inr cnts \<Rightarrow> parse_result (charset self) cnts target_index len)
      | Some (IBMBackend backend_name) \<Rightarrow>
          (case run_ibm e (service self) backend_name qc of
             Inl err \<Rightarrow> Inr (False, None, [])
           | Inr cnts \<Rightarrow> parse_result (charset self) cnts target_index len))"

definition quantum_search ::
  "env \<Rightarrow> cracker \<Rightarrow> string \<Rightarrow> nat \<Rightarrow> error + search_result \<times> cracker" where
  "quantum_search e self target_hash len =
     (let search_space = calculate_search_space (charset self) len in
      case ceil_log2 e search_space of
        Inl err \<Rightarrow> Inl err
      | Inr n_qubits \<Rightarrow>
          (case quarter_pi_sqrt e search_space of
             Inl err \<Rightarrow> Inl err
           | Inr g \<Rightarrow>
               (let optimal_iterations = max 1 g;
                    self1 = self\<lparr>quantum_iterations := optimal_iterations\<rparr>
                in case find_target (simple_hash e) (charset self1) target_hash
                          (itertools_product (charset self1) len) of
                     Inl err \<Rightarrow> Inl err
                   | Inr None \<Rightarrow> Inr ((False, None, []), self1)
                   | Inr (Some target_index) \<Rightarrow>
                       (let qc = create_grover_circuit n_qubits target_index
                                   (nat optimal_iterations);
                            self2 = (if backend self1 = None
                                     then self1\<lparr>backend := Some AerSimulator\<rparr>
                                     else self1)
                        in case execute e self2 qc target_index len of
                             Inl err \<Rightarrow> Inl err
                           | Inr r \<Rightarrow> Inr (r, self2)))))"

text \<open>
  \<^verbatim>\<open>quantum_search_aer\<close> and \<^verbatim>\<open>quantum_search_ibm\<close>: save the backend, install
  another, search, put the saved one back. There is no \<^verbatim>\<open>try\<close> around the
  search, so an exception leaves the method before the backend is put back.
\<close>

definition quantum_search_aer ::
  "env \<Rightarrow> cracker \<Rightarrow> string \<Rightarrow> nat \<Rightarrow> error + search_result \<times> cracker" where
  "quantum_search_aer e self target_hash len =
     (let old_backend = backend self;
          self1 = self\<lparr>backend := Some AerSimulator\<rparr>
      in case quantum_search e self1 target_hash len of
           Inl err \<Rightarrow> Inl err
         | Inr (r, self2) \<Rightarrow> Inr (r, self2\<lparr>backend := old_backend\<rparr>))"

definition quantum_search_ibm ::
  "env \<Rightarrow> cracker \<Rightarrow> string \<Rightarrow> nat \<Rightarrow> string \<Rightarrow> error + search_result \<times> cracker" where
  "quantum_search_ibm e self target_hash len backend_name =
     (if service self = None then Inr ((False, None, []), self)
      else (let old_backend = backend self;
                self1 = self\<lparr>backend := Some (IBMBackend backend_name)\<rparr>
            in case quantum_search e self1 target_hash len of
                 Inl err \<Rightarrow> Inl err
               | Inr (r, self2) \<Rightarrow> Inr (r, self2\<lparr>backend := old_backend\<rparr>)))"

section \<open>Facts about the codec\<close>

lemma index_of_member:
  "c \<in> set cs \<Longrightarrow> \<exists>k. index_of cs c = Inr k \<and> k < length cs \<and> cs ! k = c"
  by (induction cs) auto

lemma index_of_nth:
  "distinct cs \<Longrightarrow> k < length cs \<Longrightarrow> index_of cs (cs ! k) = Inr k"
proof (induction cs arbitrary: k)
  case Nil
  then show ?case by simp
next
  case (Cons x xs)
  show ?case
  proof (cases k)
    case 0
    then show ?thesis by simp
  next
    case (Suc j)
    with Cons.prems have "j < length xs" "xs ! j \<in> set xs" "x \<notin> set xs" "distinct xs"
      by auto
    with Cons.IH [of j] Suc show ?thesis by auto
  qed
qed

lemma text_to_index_loop_shift:
  "text_to_index_loop cs acc i xs =
     (case text_to_index_loop cs 0 0 xs of
        Inl e \<Rightarrow> Inl e
      | Inr v \<Rightarrow> Inr (acc + int (length cs) ^ i * v))"
proof (induction xs arbitrary: acc i)
  case Nil
  then show ?case by simp
next
  case (Cons ch rest)
  show ?case
  proof (cases "index_of cs ch")
    case (Inl e)
    then show ?thesis by simp
  next
    case (Inr k)
    have a: "text_to_index_loop cs (acc + int k * int (length cs) ^ i) (Suc i) rest =
      (case text_to_index_loop cs 0 0 rest of Inl e \<Rightarrow> Inl e
       | Inr v \<Rightarrow> Inr (acc + int k * int (length cs) ^ i + int (length cs) ^ Suc i * v))"
      by (rule Cons.IH)
    have b: "text_to_index_loop cs (0 + int k * int (length cs) ^ 0) (Suc 0) rest =
      (case text_to_index_loop cs 0 0 rest of Inl e \<Rightarrow> Inl e
       | Inr v \<Rightarrow> Inr (0 + int k * int (length cs) ^ 0 + int (length cs) ^ Suc 0 * v))"
      by (rule Cons.IH)
    show ?thesis
      using Inr a b by (simp add: algebra_simps split: sum.splits)
  qed
qed

lemma text_to_index_snoc:
  "text_to_index cs (s @ [c]) =
     (case index_of cs c of
        Inl e \<Rightarrow> Inl e
      | Inr k \<Rightarrow> (case text_to_index cs s of
                   Inl e \<Rightarrow> Inl e
                 | Inr v \<Rightarrow> Inr (int k + int (length cs) * v)))"
  using text_to_index_loop_shift [of cs "int k" "Suc 0" "rev s" for k]
  by (simp add: text_to_index_def split: sum.splits)

lemma text_to_index_loop_append:
  "text_to_index_loop cs acc i (xs @ ys) =
     (case text_to_index_loop cs acc i xs of
        Inl e \<Rightarrow> Inl e
      | Inr v \<Rightarrow> text_to_index_loop cs v (i + length xs) ys)"
  by (induction xs arbitrary: acc i) (auto split: sum.splits)

lemma text_to_index_Cons:
  "text_to_index cs (c # s) =
     (case text_to_index cs s of
        Inl e \<Rightarrow> Inl e
      | Inr v \<Rightarrow> (case index_of cs c of
                   Inl e \<Rightarrow> Inl e
                 | Inr k \<Rightarrow> Inr (int k * int (length cs) ^ length s + v)))"
  by (simp add: text_to_index_def text_to_index_loop_append split: sum.splits)

lemma index_to_text_loop_acc:
  "index_to_text_loop cs i n (a @ acc) =
     (case index_to_text_loop cs i n acc of Inl e \<Rightarrow> Inl e | Inr t \<Rightarrow> Inr (a @ t))"
proof (induction n arbitrary: i acc)
  case 0
  then show ?case by simp
next
  case (Suc n)
  show ?case
    using Suc.IH [of "i div int (length cs)" "acc @ [cs ! nat (i mod int (length cs))]"]
    by simp
qed

lemma index_to_text_Suc:
  "cs \<noteq> [] \<Longrightarrow> index_to_text cs i (Suc n) =
     (case index_to_text cs (i div int (length cs)) n of
        Inl e \<Rightarrow> Inl e
      | Inr t \<Rightarrow> Inr (t @ [cs ! nat (i mod int (length cs))]))"
  using index_to_text_loop_acc [of cs "i div int (length cs)" n "[cs ! nat (i mod int (length cs))]" "[]"]
  by (simp add: index_to_text_def split: sum.splits)

lemma index_to_text_total:
  "cs \<noteq> [] \<Longrightarrow> \<exists>t. index_to_text cs i n = Inr t \<and> length t = n \<and> set t \<subseteq> set cs"
proof (induction n arbitrary: i)
  case 0
  then show ?case by (simp add: index_to_text_def)
next
  case (Suc n)
  from Suc.IH [OF Suc.prems, of "i div int (length cs)"]
  obtain t where t: "index_to_text cs (i div int (length cs)) n = Inr t" "length t = n" "set t \<subseteq> set cs"
    by blast
  have "nat (i mod int (length cs)) < length cs"
    using Suc.prems by (simp add: nat_less_iff)
  then have "cs ! nat (i mod int (length cs)) \<in> set cs" by simp
  with t show ?case by (simp add: index_to_text_Suc [OF Suc.prems])
qed

lemma index_to_text_mod:
  "cs \<noteq> [] \<Longrightarrow> index_to_text cs (i mod int (length cs) ^ n) n = index_to_text cs i n"
proof (induction n arbitrary: i)
  case 0
  then show ?case by (simp add: index_to_text_def)
next
  case (Suc n)
  let ?b = "int (length cs)"
  have b: "0 < ?b" using Suc.prems by simp
  have "i mod ?b ^ Suc n = ?b * (i div ?b mod ?b ^ n) + i mod ?b"
    using zmod_zmult2_eq [of "?b ^ n" i ?b] b by simp
  then have d: "(i mod ?b ^ Suc n) div ?b = i div ?b mod ?b ^ n"
    and m: "(i mod ?b ^ Suc n) mod ?b = i mod ?b"
    using b by simp_all
  show ?case
    using Suc.IH [OF Suc.prems, of "i div ?b"]
    by (simp only: index_to_text_Suc [OF Suc.prems] d m)
qed

text \<open>
  Claim C3, as the code has it. \<^verbatim>\<open>index_to_text\<close> has no range check: over a
  non-empty alphabet of size \<open>B\<close> it never fails, and for an index of at least
  \<open>B ^ len\<close> it returns the candidate of length \<open>len\<close> that the index reduced
  modulo \<open>B ^ len\<close> decodes to: the digits above position \<open>len\<close> are dropped.
\<close>

theorem index_to_text_out_of_range:
  "cs \<noteq> [] \<Longrightarrow> int (length cs) ^ len \<le> index \<Longrightarrow>
     \<exists>t. index_to_text cs index len = Inr t \<and> length t = len \<and> set t \<subseteq> set cs
       \<and> index_to_text cs (index mod int (length cs) ^ len) len = Inr t"
  using index_to_text_total [of cs index len] by (auto simp: index_to_text_mod)

theorem index_to_text_out_of_range_witness:
  "''abcd'' \<noteq> [] \<and> int (length ''abcd'') ^ 2 \<le> (21::int) \<and>
   (\<exists>t. index_to_text ''abcd'' 21 2 = Inr t \<and> length t = 2 \<and> set t \<subseteq> set ''abcd''
       \<and> index_to_text ''abcd'' (21 mod int (length ''abcd'') ^ 2) 2 = Inr t)"
  using index_to_text_out_of_range [of "''abcd''" 2 21] by simp

text \<open>
  The example of claim C3: over the alphabet \<open>abcd\<close>, \<open>16 = 4 ^ 2\<close> is out of
  range for length 2, and \<^verbatim>\<open>index_to_text(16, 2)\<close> returns \<open>aa\<close>, the candidate
  of index 0.
\<close>

theorem index_to_text_16_2_counterexample:
  "int (length ''abcd'') ^ 2 \<le> (16::int) \<and> index_to_text ''abcd'' 16 2 = Inr ''aa''"
  by (simp add: index_to_text_def numeral_2_eq_2)

lemma decode_encode:
  "set s \<subseteq> set cs \<Longrightarrow>
     \<exists>i. text_to_index cs s = Inr i \<and> 0 \<le> i \<and> i < int (length cs) ^ length s
       \<and> index_to_text cs i (length s) = Inr s"
proof (induction s rule: rev_induct)
  case Nil
  then show ?case by (simp add: text_to_index_def index_to_text_def)
next
  case (snoc c s)
  let ?b = "int (length cs)"
  from snoc.prems have "set s \<subseteq> set cs" by simp
  from snoc.IH [OF this] obtain i where i: "text_to_index cs s = Inr i" "0 \<le> i" "i < ?b ^ length s"
    "index_to_text cs i (length s) = Inr s"
    by blast
  from snoc.prems have "c \<in> set cs" by simp
  from index_of_member [OF this]
  obtain k where k: "index_of cs c = Inr k" "k < length cs" "cs ! k = c"
    by blast
  then have ne: "cs \<noteq> []" by auto
  have enc: "text_to_index cs (s @ [c]) = Inr (int k + ?b * i)"
    by (simp add: text_to_index_snoc k i)
  have d: "(int k + ?b * i) div ?b = i" and m: "(int k + ?b * i) mod ?b = int k"
    using k(2) ne by simp_all
  have bound: "int k + ?b * i < ?b ^ length (s @ [c])"
  proof -
    have "int k + ?b * i < ?b + ?b * i" using k(2) by simp
    also have "\<dots> = ?b * (i + 1)" by (simp add: algebra_simps)
    also have "\<dots> \<le> ?b * ?b ^ length s"
      using i(3) by (intro mult_left_mono) simp_all
    finally show ?thesis by simp
  qed
  have nonneg: "0 \<le> int k + ?b * i" using i(2) by simp
  have "index_to_text cs (int k + ?b * i) (Suc (length s)) = Inr (s @ [c])"
    by (simp only: index_to_text_Suc [OF ne] d m i(4) nat_int k(3) sum.case)
  then have dec: "index_to_text cs (int k + ?b * i) (length (s @ [c])) = Inr (s @ [c])"
    by simp
  from enc nonneg bound dec show ?case by blast
qed

lemma encode_decode:
  "distinct cs \<Longrightarrow> 0 \<le> i \<Longrightarrow> i < int (length cs) ^ n \<Longrightarrow>
     \<exists>t. index_to_text cs i n = Inr t \<and> length t = n \<and> text_to_index cs t = Inr i"
proof (induction n arbitrary: i)
  case 0
  then show ?case by (simp add: index_to_text_def text_to_index_def)
next
  case (Suc n)
  let ?b = "int (length cs)"
  have ne: "cs \<noteq> []" using Suc.prems by (cases cs) auto
  then have b: "0 < ?b" by simp
  have "0 \<le> i div ?b" using Suc.prems b by (simp add: pos_imp_zdiv_nonneg_iff)
  moreover have "i div ?b < ?b ^ n"
  proof -
    have "?b * (i div ?b) + i mod ?b = i" by simp
    moreover have "0 \<le> i mod ?b" using b by simp
    ultimately have "?b * (i div ?b) \<le> i" by linarith
    also have "i < ?b * ?b ^ n" using Suc.prems by simp
    finally show ?thesis using b by (simp add: mult_less_cancel_left_pos)
  qed
  ultimately obtain t where t: "index_to_text cs (i div ?b) n = Inr t" "length t = n"
    "text_to_index cs t = Inr (i div ?b)"
    using Suc.IH [OF Suc.prems(1), of "i div ?b"] by blast
  let ?k = "nat (i mod ?b)"
  have k: "?k < length cs" using b by (simp add: nat_less_iff)
  have io: "index_of cs (cs ! ?k) = Inr ?k"
    by (rule index_of_nth [OF Suc.prems(1) k])
  have "int ?k + ?b * (i div ?b) = i" using b by simp
  then have "text_to_index cs (t @ [cs ! ?k]) = Inr i"
    by (simp add: text_to_index_snoc io t del: int_nat_eq)
  then show ?case
    by (simp add: index_to_text_Suc [OF ne] t)
qed

text \<open>
  Claim C4, the round trip. A string over the alphabet is encoded to an index
  that decodes, at the string's length, to the string; and when the alphabet
  has no repeated symbol, an index \<open>j\<close> with \<open>0 \<le> j < B ^ len\<close> decodes to a
  string that encodes to \<open>j\<close>.
\<close>

theorem codec_round_trip:
  "(set s \<subseteq> set cs \<longrightarrow>
      (\<exists>i. text_to_index cs s = Inr i \<and> index_to_text cs i (length s) = Inr s)) \<and>
   (distinct cs \<and> 0 \<le> j \<and> j < int (length cs) ^ len \<longrightarrow>
      (\<exists>t. index_to_text cs j len = Inr t \<and> text_to_index cs t = Inr j))"
  using decode_encode [of s cs] encode_decode [of cs j len] by blast

theorem codec_round_trip_witness:
  "set ''q7'' \<subseteq> set charset_init \<and>
   (\<exists>i. text_to_index charset_init ''q7'' = Inr i \<and> index_to_text charset_init i (length ''q7'') = Inr ''q7'') \<and>
   distinct charset_init \<and> (0::int) \<le> 1051 \<and> 1051 < int (length charset_init) ^ 2 \<and>
   (\<exists>t. index_to_text charset_init 1051 2 = Inr t \<and> text_to_index charset_init t = Inr 1051)"
proof -
  have a: "set ''q7'' \<subseteq> set charset_init" by (simp add: charset_init_def)
  have b: "distinct charset_init \<and> (0::int) \<le> 1051 \<and> 1051 < int (length charset_init) ^ 2"
    by (simp add: charset_init_def)
  show ?thesis
    using codec_round_trip [of "''q7''" charset_init 1051 2] a b by blast
qed

section \<open>Facts about the classical search\<close>

lemma itertools_product_length:
  "s \<in> set (itertools_product cs r) \<Longrightarrow> length s = r"
  by (induction r arbitrary: s) auto

lemma concat_blocks:
  "concat (map (\<lambda>q. map (\<lambda>j. f (q * m + j)) [0..<m]) [0..<b]) = map f [0..<b * m]"
proof (induction b)
  case 0
  then show ?case by simp
next
  case (Suc b)
  have "[0..<Suc b * m] = [0..<b * m] @ map (\<lambda>j. b * m + j) [0..<m]"
    using upt_add_eq_append [of 0 "b * m" m] map_add_upt [of "b * m" m]
    by (simp add: add.commute)
  then show ?case using Suc by (simp add: comp_def)
qed

lemma text_to_index_product:
  assumes "distinct cs"
  shows "map (text_to_index cs) (itertools_product cs r) =
           map (\<lambda>j. Inr (int j)) [0..<length cs ^ r]"
proof (induction r)
  case 0
  show ?case by (simp add: text_to_index_def)
next
  case (Suc r)
  let ?P = "itertools_product cs r"
  let ?m = "length cs ^ r"
  have block: "map (\<lambda>rest. text_to_index cs (cs ! q # rest)) ?P =
                 map (\<lambda>j. Inr (int (q * ?m + j))) [0..<?m]" if q: "q < length cs" for q
  proof -
    have io: "index_of cs (cs ! q) = Inr q"
      by (rule index_of_nth [OF assms q])
    have "map (\<lambda>rest. text_to_index cs (cs ! q # rest)) ?P =
            map (\<lambda>rest. case text_to_index cs rest of Inl e \<Rightarrow> Inl e
                          | Inr v \<Rightarrow> Inr (int q * int (length cs) ^ r + v)) ?P"
      by (rule map_cong [OF refl])
         (simp add: text_to_index_Cons io itertools_product_length split: sum.splits)
    also have "\<dots> = map (\<lambda>x. case x of Inl e \<Rightarrow> Inl e
                          | Inr v \<Rightarrow> Inr (int q * int (length cs) ^ r + v))
                     (map (text_to_index cs) ?P)"
      by (simp add: comp_def)
    also have "\<dots> = map (\<lambda>j. Inr (int (q * ?m + j))) [0..<?m]"
      by (simp add: Suc comp_def)
    finally show ?thesis .
  qed
  have "map (text_to_index cs) (itertools_product cs (Suc r)) =
          concat (map (\<lambda>c. map (\<lambda>rest. text_to_index cs (c # rest)) ?P) cs)"
    by (simp add: map_concat comp_def)
  also have "\<dots> = concat (map (\<lambda>c. map (\<lambda>rest. text_to_index cs (c # rest)) ?P)
                        (map (\<lambda>q. cs ! q) [0..<length cs]))"
    by (simp add: map_nth)
  also have "\<dots> = concat (map (\<lambda>q. map (\<lambda>j. Inr (int (q * ?m + j))) [0..<?m])
                        [0..<length cs])"
  proof -
    have "map (\<lambda>q. map (\<lambda>rest. text_to_index cs (cs ! q # rest)) ?P) [0..<length cs] =
            map (\<lambda>q. map (\<lambda>j. Inr (int (q * ?m + j))) [0..<?m]) [0..<length cs]"
      by (rule map_cong [OF refl]) (simp add: block)
    then show ?thesis by (simp only: map_map comp_def)
  qed
  also have "\<dots> = map (\<lambda>j. Inr (int j)) [0..<length cs * ?m]"
    by (rule concat_blocks)
  finally show ?case by simp
qed

lemma length_itertools_product:
  "length (itertools_product cs r) = length cs ^ r"
  by (induction r) (simp_all add: length_concat comp_def sum_list_triv)

lemma bruteforce_loop_found:
  "bruteforce_loop h t a xs = (Some s, k) \<Longrightarrow>
     \<exists>j<length xs. xs ! j = s \<and> k = a + j + 1 \<and> h s = t \<and> (\<forall>i<j. h (xs ! i) \<noteq> t)"
proof (induction xs arbitrary: a)
  case Nil
  then show ?case by simp
next
  case (Cons x xs)
  show ?case
  proof (cases "h x = t")
    case True
    with Cons.prems show ?thesis by auto
  next
    case False
    with Cons.prems have "bruteforce_loop h t (a + 1) xs = (Some s, k)" by simp
    from Cons.IH [OF this] obtain j where j: "j < length xs" "xs ! j = s" "k = a + 1 + j + 1"
      "h s = t" "\<forall>i<j. h (xs ! i) \<noteq> t"
      by blast
    have "\<forall>i<Suc j. h ((x # xs) ! i) \<noteq> t"
      using j(5) False by (auto simp: less_Suc_eq_0_disj)
    with j show ?thesis
      by (intro exI [of _ "Suc j"]) simp
  qed
qed

text \<open>
  Claim C10. Over an alphabet without repeated symbols, when
  \<^verbatim>\<open>classical_bruteforce\<close> returns a string \<open>s\<close> with \<open>n\<close> attempts, the digest
  of \<open>s\<close> is the target and \<open>n\<close> is \<^verbatim>\<open>text_to_index(s) + 1\<close>: the candidates
  are enumerated in ascending order of their index.
\<close>

theorem classical_bruteforce_attempts:
  assumes "distinct cs"
    and "classical_bruteforce h cs target_hash len = (Some s, n)"
  shows "h s = target_hash \<and> text_to_index cs s = Inr (int n - 1)"
proof -
  let ?P = "itertools_product cs len"
  from assms(2) have "bruteforce_loop h target_hash 0 ?P = (Some s, n)"
    by (simp add: classical_bruteforce_def)
  from bruteforce_loop_found [OF this]
  obtain j where j: "j < length ?P" "?P ! j = s" "n = j + 1" "h s = target_hash"
    by auto
  have "text_to_index cs s = map (text_to_index cs) ?P ! j"
    using j(1,2) by simp
  also have "\<dots> = Inr (int j)"
    using j(1) by (simp add: text_to_index_product [OF assms(1)] length_itertools_product)
  finally show ?thesis using j(3,4) by simp
qed

theorem classical_bruteforce_attempts_witness:
  "distinct ''abc'' \<and>
   classical_bruteforce (\<lambda>s. if s = ''ca'' \<or> s = ''cc'' then ''h1'' else ''h0'') ''abc'' ''h1'' 2 = (Some ''ca'', 7) \<and>
   text_to_index ''abc'' ''ca'' = Inr (int 7 - 1)"
proof -
  let ?h = "\<lambda>s. if s = ''ca'' \<or> s = ''cc'' then ''h1'' else ''h0''"
  have d: "distinct ''abc''" by simp
  have r: "classical_bruteforce ?h ''abc'' ''h1'' 2 = (Some ''ca'', 7)"
    by (simp add: classical_bruteforce_def numeral_2_eq_2)
  from classical_bruteforce_attempts [OF d r] d r show ?thesis by simp
qed

section \<open>Facts about the interpretation of the counts\<close>

lemma max_item_mem:
  "max_item best items \<in> set (best # items)"
  by (induction items arbitrary: best) auto

lemma max_item_ge:
  "snd best \<le> snd (max_item best items) \<and> (\<forall>x\<in>set items. snd x \<le> snd (max_item best items))"
proof (induction items arbitrary: best)
  case Nil
  then show ?case by simp
next
  case (Cons item items)
  let ?b = "if snd best < snd item then item else best"
  from Cons [of ?b] have "snd ?b \<le> snd (max_item ?b items)"
    and "\<forall>x\<in>set items. snd x \<le> snd (max_item ?b items)"
    by blast+
  then show ?case by (auto split: if_splits)
qed

lemma int_base2_loop_value:
  "list_all (\<lambda>c. c = CHR ''0'' \<or> c = CHR ''1'') s \<Longrightarrow>
     int_base2_loop acc s = Inr (foldl (\<lambda>v c. 2 * v + (if c = CHR ''1'' then 1 else 0)) acc s)"
  by (induction s arbitrary: acc) auto

lemma int_base2_bitstring:
  "bitstring s \<Longrightarrow> int_base2 s = Inr (binary_value s)"
  by (simp add: int_base2_def int_base2_loop_value bitstring_def binary_value_def)

text \<open>
  Claim C8. For a non-empty distribution whose keys are bitstrings, and a
  non-empty alphabet, the interpretation picks an item \<open>(key, n)\<close> of the
  distribution whose count \<open>n\<close> no count exceeds, reads \<open>key\<close> as a binary
  numeral, decodes that index with \<^verbatim>\<open>index_to_text\<close>, and reports success exactly
  when the index is \<open>target_index\<close>.
\<close>

theorem parse_result_mode:
  assumes "cnts \<noteq> []"
    and "list_all (\<lambda>item. bitstring (fst item)) cnts"
    and "cs \<noteq> []"
  shows "\<exists>key n decoded.
           (key, n) \<in> set cnts \<and> list_all (\<lambda>item. snd item \<le> n) cnts \<and>
           index_to_text cs (binary_value key) len = Inr decoded \<and>
           parse_result cs cnts target_index len =
             Inr (binary_value key = target_index, Some decoded, cnts)"
proof -
  from assms(1) obtain item items where c: "cnts = item # items"
    by (cases cnts) auto
  let ?m = "max_item item items"
  have mem: "?m \<in> set cnts" using max_item_mem [of item items] c by simp
  have ge: "list_all (\<lambda>x. snd x \<le> snd ?m) cnts"
    using max_item_ge [of item items] c by (simp add: list_all_iff)
  from assms(2) mem have "bitstring (fst ?m)" by (simp add: list_all_iff)
  then have iv: "int_base2 (fst ?m) = Inr (binary_value (fst ?m))"
    by (rule int_base2_bitstring)
  from index_to_text_total [OF assms(3), of "binary_value (fst ?m)" len]
  obtain decoded where d: "index_to_text cs (binary_value (fst ?m)) len = Inr decoded"
    by blast
  have "parse_result cs cnts target_index len =
          Inr (binary_value (fst ?m) = target_index, Some decoded, cnts)"
    by (simp add: parse_result_def c iv d)
  moreover have "(fst ?m, snd ?m) \<in> set cnts" using mem by simp
  ultimately show ?thesis using ge d by blast
qed

theorem parse_result_mode_witness:
  "[(''01'', 3), (''11'', 7), (''10'', 7::int)] \<noteq> [] \<and>
   list_all (\<lambda>item. bitstring (fst item)) [(''01'', 3), (''11'', 7), (''10'', 7::int)] \<and>
   ''abcd'' \<noteq> [] \<and>
   (\<exists>key n decoded.
      (key, n) \<in> set [(''01'', 3), (''11'', 7), (''10'', 7::int)] \<and>
      list_all (\<lambda>item. snd item \<le> n) [(''01'', 3), (''11'', 7), (''10'', 7::int)] \<and>
      index_to_text ''abcd'' (binary_value key) 1 = Inr decoded \<and>
      parse_result ''abcd'' [(''01'', 3), (''11'', 7), (''10'', 7::int)] 3 1 =
        Inr (binary_value key = 3, Some decoded, [(''01'', 3), (''11'', 7), (''10'', 7::int)]))"
proof -
  have a: "[(''01'', 3), (''11'', 7), (''10'', 7::int)] \<noteq> []" by simp
  have b: "list_all (\<lambda>item. bitstring (fst item)) [(''01'', 3), (''11'', 7), (''10'', 7::int)]"
    by (simp add: bitstring_def)
  have c: "''abcd'' \<noteq> []" by simp
  from parse_result_mode [OF a b c, of 1 3] a b c show ?thesis by blast
qed

section \<open>Facts about the backend wrappers\<close>

text \<open>
  Claim C9. When \<^verbatim>\<open>quantum_search_aer\<close> returns, the backend of the object is
  the one it had before the call, whatever \<^verbatim>\<open>quantum_search\<close> returned and
  whatever it did to the field; the same holds for \<^verbatim>\<open>quantum_search_ibm\<close>, which
  does not touch the field at all when no service is configured.
\<close>

theorem backend_restored:
  "(quantum_search_aer e self target_hash len = Inr (r, self') \<longrightarrow>
      backend self' = backend self) \<and>
   (quantum_search_ibm e self target_hash len backend_name = Inr (r', self'') \<longrightarrow>
      backend self'' = backend self)"
  by (auto simp: quantum_search_aer_def quantum_search_ibm_def Let_def
           split: sum.splits prod.splits if_splits)

theorem backend_restored_witness:
  "quantum_search_aer
     \<lparr>simple_hash = (\<lambda>s. s), ceil_log2 = (\<lambda>n. Inr 1), quarter_pi_sqrt = (\<lambda>n. Inr 1),
      run_aer = (\<lambda>qc. Inr [(''0'', 24), (''1'', 1000)]),
      run_ibm = (\<lambda>sv name qc. Inr [(''0'', 600), (''1'', 424)])\<rparr>
     \<lparr>charset = ''ab'', attempts = 0, quantum_iterations = 0,
      service = Some QiskitRuntimeService, backend = None\<rparr> ''b'' 1
   = Inr ((True, Some ''b'', [(''0'', 24), (''1'', 1000)]),
          \<lparr>charset = ''ab'', attempts = 0, quantum_iterations = 1,
           service = Some QiskitRuntimeService, backend = None\<rparr>) \<and>
   backend \<lparr>charset = ''ab'', attempts = 0, quantum_iterations = 1,
            service = Some QiskitRuntimeService, backend = None\<rparr>
   = backend \<lparr>charset = ''ab'', attempts = 0, quantum_iterations = 0,
              service = Some QiskitRuntimeService, backend = None\<rparr> \<and>
   quantum_search_ibm
     \<lparr>simple_hash = (\<lambda>s. s), ceil_log2 = (\<lambda>n. Inr 1), quarter_pi_sqrt = (\<lambda>n. Inr 1),
      run_aer = (\<lambda>qc. Inr [(''0'', 24), (''1'', 1000)]),
      run_ibm = (\<lambda>sv name qc. Inr [(''0'', 600), (''1'', 424)])\<rparr>
     \<lparr>charset = ''ab'', attempts = 0, quantum_iterations = 0,
      service = Some QiskitRuntimeService, backend = Some AerSimulator\<rparr> ''b'' 1 ''ibm_brisbane''
   = Inr ((False, Some ''a'', [(''0'', 600), (''1'', 424)]),
          \<lparr>charset = ''ab'', attempts = 0, quantum_iterations = 1,
           service = Some QiskitRuntimeService, backend = Some AerSimulator\<rparr>) \<and>
   backend \<lparr>charset = ''ab'', attempts = 0, quantum_iterations = 1,
            service = Some QiskitRuntimeService, backend = Some AerSimulator\<rparr>
   = backend \<lparr>charset = ''ab'', attempts = 0, quantum_iterations = 0,
              service = Some QiskitRuntimeService, backend = Some AerSimulator\<rparr>"
proof -
  let ?e = "\<lparr>simple_hash = (\<lambda>s. s), ceil_log2 = (\<lambda>n. Inr 1), quarter_pi_sqrt = (\<lambda>n. Inr 1),
      run_aer = (\<lambda>qc. Inr [(''0'', 24), (''1'', 1000)]),
      run_ibm = (\<lambda>sv name qc. Inr [(''0'', 600), (''1'', 424)])\<rparr>"
  let ?s = "\<lparr>charset = ''ab'', attempts = 0, quantum_iterations = 0,
      service = Some QiskitRuntimeService, backend = None\<rparr>"
  let ?t = "\<lparr>charset = ''ab'', attempts = 0, quantum_iterations = 0,
      service = Some QiskitRuntimeService, backend = Some AerSimulator\<rparr>"
  have a: "quantum_search_aer ?e ?s ''b'' 1
     = Inr ((True, Some ''b'', [(''0'', 24), (''1'', 1000)]),
          \<lparr>charset = ''ab'', attempts = 0, quantum_iterations = 1,
           service = Some QiskitRuntimeService, backend = None\<rparr>)"
    by (simp add: quantum_search_aer_def quantum_search_def execute_def parse_result_def
          calculate_search_space_def text_to_index_def int_base2_def index_to_text_def)
  have b: "quantum_search_ibm ?e ?t ''b'' 1 ''ibm_brisbane''
     = Inr ((False, Some ''a'', [(''0'', 600), (''1'', 424)]),
          \<lparr>charset = ''ab'', attempts = 0, quantum_iterations = 1,
           service = Some QiskitRuntimeService, backend = Some AerSimulator\<rparr>)"
    by (simp add: quantum_search_ibm_def quantum_search_def execute_def parse_result_def
          calculate_search_space_def text_to_index_def int_base2_def index_to_text_def)
  from backend_restored [of ?e ?s "''b''" 1] backend_restored [of ?e ?t "''b''" 1] a b
  show ?thesis by simp
qed

section \<open>Facts about single gates and the one-qubit oracle\<close>

lemma sqrt2_sq: "complex_of_real (sqrt 2) * complex_of_real (sqrt 2) = 2"
  by (metis of_real_mult of_real_numeral real_sqrt_mult_self abs_numeral)

lemma half_sum:
  "((a + b) / complex_of_real (sqrt 2) + (a - b) / complex_of_real (sqrt 2))
     / complex_of_real (sqrt 2) = a"
proof -
  have "((a + b) / complex_of_real (sqrt 2) + (a - b) / complex_of_real (sqrt 2))
          / complex_of_real (sqrt 2)
        = (2 * a) / (complex_of_real (sqrt 2) * complex_of_real (sqrt 2))"
    by (simp add: add_divide_distrib [symmetric])
  then show ?thesis by (simp add: sqrt2_sq)
qed

lemma half_diff:
  "((a + b) / complex_of_real (sqrt 2) - (a - b) / complex_of_real (sqrt 2))
     / complex_of_real (sqrt 2) = b"
proof -
  have "((a + b) / complex_of_real (sqrt 2) - (a - b) / complex_of_real (sqrt 2))
          / complex_of_real (sqrt 2)
        = (2 * b) / (complex_of_real (sqrt 2) * complex_of_real (sqrt 2))"
    by (simp add: diff_divide_distrib [symmetric])
  then show ?thesis by (simp add: sqrt2_sq)
qed

lemma simulate_Nil [simp]: "simulate [] \<psi> = \<psi>"
  by (simp add: simulate_def)

lemma simulate_append: "simulate (gs @ hs) \<psi> = simulate hs (simulate gs \<psi>)"
  by (simp add: simulate_def)

lemma simulate_Cons: "simulate (g # gs) \<psi> = simulate gs (apply_gate g \<psi>)"
  by (simp add: simulate_def)

lemma hadamard_twice:
  assumes "q < length bs"
  shows "apply_gate (H (int q)) (apply_gate (H (int q)) \<psi>) bs = \<psi> bs"
proof -
  define a where "a = \<psi> (bs[q := False])"
  define b where "b = \<psi> (bs[q := True])"
  define \<phi> where "\<phi> = apply_gate (H (int q)) \<psi>"
  have p0: "\<phi> (bs[q := False]) = (a + b) / complex_of_real (sqrt 2)"
    using assms by (simp add: \<phi>_def a_def b_def)
  have p1: "\<phi> (bs[q := True]) = (a - b) / complex_of_real (sqrt 2)"
    using assms by (simp add: \<phi>_def a_def b_def)
  show ?thesis
  proof (cases "bs ! q")
    case True
    then have "bs[q := True] = bs" by (metis list_update_id)
    then have "\<psi> bs = b" by (simp add: b_def)
    moreover have "apply_gate (H (int q)) \<phi> bs =
        ((a + b) / complex_of_real (sqrt 2) - (a - b) / complex_of_real (sqrt 2))
          / complex_of_real (sqrt 2)"
      using True by (simp add: p0 p1 minus_divide_left)
    ultimately show ?thesis by (simp only: half_diff \<phi>_def [symmetric])
  next
    case False
    then have "bs[q := False] = bs" by (metis list_update_id)
    then have "\<psi> bs = a" by (simp add: a_def)
    moreover have "apply_gate (H (int q)) \<phi> bs =
        ((a + b) / complex_of_real (sqrt 2) + (a - b) / complex_of_real (sqrt 2))
          / complex_of_real (sqrt 2)"
      using False by (simp add: p0 p1)
    ultimately show ?thesis by (simp only: half_sum \<phi>_def [symmetric])
  qed
qed


lemma bin_digits_0: "bin_digits 0 = ''0''"
  by (simp add: bin_digits.simps [of 0])

lemma bin_digits_1: "bin_digits (Suc 0) = ''1''"
  by (simp add: bin_digits.simps [of "Suc 0"])

lemma oracle_gates_1_1: "oracle_gates [] (Suc 0) 1 = [H 0, H 0]"
  by (simp add: oracle_gates_def format_bits_def bin_digits_1)

lemma oracle_gates_1_0: "oracle_gates [] (Suc 0) 0 = [X 0, H 0, H 0, X 0]"
  by (simp add: oracle_gates_def format_bits_def bin_digits_0)

lemma basis_state_1_1: "basis_state (Suc 0) 1 = [True]"
  by (simp add: basis_state_def format_bits_def bin_digits_1)

text \<open>
  Claim C1 at one qubit. For \<open>n_qubits = 1\<close> and \<open>target_index = 1\<close> the basis
  state numbered 1 is the one with qubit 0 set; on the amplitude vector that
  gives it amplitude 1, the emitted sequence leaves that amplitude 1: the
  sign is not flipped.
\<close>

theorem oracle_one_qubit_no_flip:
  "basis_state 1 1 = [True] \<and>
   simulate (oracle_gates [] 1 1) (\<lambda>bs. if bs = [True] then 1 else 0) (basis_state 1 1) = 1"
  using hadamard_twice [of 0 "[True]" "\<lambda>bs. if bs = [True] then 1 else 0"]
  by (simp add: oracle_gates_1_1 basis_state_1_1 simulate_Cons del: apply_gate.simps)

text \<open>
  Claim C2. For \<open>n_qubits = 1\<close> the builder emits no controlled gate, and what
  it emits is two Hadamard gates on qubit 0 (between two \<open>X\<close> gates when the
  target is 0). On every one-qubit amplitude vector that sequence is the
  identity, for either target: it is not a phase flip.
\<close>

theorem oracle_one_qubit_identity:
  "oracle_gates [] 1 1 = [H 0, H 0] \<and> oracle_gates [] 1 0 = [X 0, H 0, H 0, X 0] \<and>
   simulate (oracle_gates [] 1 1) \<psi> [b] = \<psi> [b] \<and>
   simulate (oracle_gates [] 1 0) \<psi> [b] = \<psi> [b]"
proof -
  have "simulate [H 0, H 0] \<psi> [b] = \<psi> [b]"
    using hadamard_twice [of 0 "[b]" \<psi>]
    by (simp add: simulate_Cons del: apply_gate.simps)
  moreover have "simulate [X 0, H 0, H 0, X 0] \<psi> [b] = \<psi> [b]"
    using hadamard_twice [of 0 "[\<not> b]" "apply_gate (X 0) \<psi>"]
    by (simp add: simulate_Cons del: apply_gate.simps(2))
  ultimately show ?thesis by (simp add: oracle_gates_1_1 oracle_gates_1_0)
qed

section \<open>Facts about the bit-flip layer and the controlled phase flip\<close>

lemma flip_zero_bits_acc:
  "flip_zero_bits qc q bits = qc @ flip_zero_bits [] q bits"
proof (induction bits arbitrary: qc q)
  case Nil
  then show ?case by simp
next
  case (Cons b bits)
  show ?case
    using Cons [of "qc @ [X q]" "q + 1"] Cons [of "[X q]" "q + 1"] Cons [of qc "q + 1"]
    by simp
qed

lemma simulate_flip_zero_bits:
  "simulate (flip_zero_bits [] (int q) bits) \<psi> bs = \<psi> (flip_at q bits bs)"
proof (induction bits arbitrary: q \<psi>)
  case Nil
  then show ?case by simp
next
  case (Cons b bits)
  have s: "int q + 1 = int (Suc q)" by simp
  show ?case
  proof (cases "b = CHR ''0''")
    case True
    have "flip_zero_bits [] (int q) (b # bits) = [X (int q)] @ flip_zero_bits [] (int (Suc q)) bits"
      using True flip_zero_bits_acc [of "[X (int q)]" "int (Suc q)" bits] by (simp add: s)
    then show ?thesis
      using True Cons [of "Suc q" "apply_gate (X (int q)) \<psi>"]
      by (simp add: simulate_append simulate_Cons Let_def)
  next
    case False
    then show ?thesis using Cons [of "Suc q" \<psi>] by (simp add: s)
  qed
qed

lemma length_flip_at [simp]: "length (flip_at q bits bs) = length bs"
  by (induction bits arbitrary: q) (simp_all add: Let_def)

lemma nth_flip_at:
  "i < length bs \<Longrightarrow>
     flip_at q bits bs ! i =
       (if q \<le> i \<and> i < q + length bits \<and> bits ! (i - q) = CHR ''0'' then \<not> bs ! i else bs ! i)"
proof (induction bits arbitrary: q)
  case Nil
  then show ?case by simp
next
  case (Cons b bits)
  show ?case
  proof (cases "i = q")
    case True
    then show ?thesis using Cons.prems Cons.IH [of "Suc q"] by (simp add: Let_def)
  next
    case False
    have "(b # bits) ! (i - q) = bits ! (i - Suc q)" if "q < i"
      using that by (simp add: nth_Cons')
    then show ?thesis
      using False Cons.prems Cons.IH [of "Suc q"] by (auto simp: Let_def)
  qed
qed


lemma half_sum':
  "((a - b) / complex_of_real (sqrt 2) + (a + b) / complex_of_real (sqrt 2))
     / complex_of_real (sqrt 2) = a"
  using half_sum [of a b] by (simp add: add.commute)

lemma half_diff':
  "((a - b) / complex_of_real (sqrt 2) - (a + b) / complex_of_real (sqrt 2))
     / complex_of_real (sqrt 2) = - b"
proof -
  have "((a - b) / complex_of_real (sqrt 2) - (a + b) / complex_of_real (sqrt 2))
          / complex_of_real (sqrt 2)
        = - (((a + b) / complex_of_real (sqrt 2) - (a - b) / complex_of_real (sqrt 2))
               / complex_of_real (sqrt 2))"
    by (simp add: minus_divide_left)
  then show ?thesis by (simp only: half_diff)
qed

lemma phase_block:
  assumes len: "length bs = n" and n: "1 < n"
  shows "simulate [H (int n - 1), MCX (map int [0..<n - 1]) (int n - 1), H (int n - 1)] \<psi> bs
           = (if list_all (\<lambda>v. v) bs then - \<psi> bs else \<psi> bs)"
proof -
  define t where "t = n - 1"
  have t: "t < length bs" "int n - 1 = int t" "n = Suc t"
    using len n by (simp_all add: t_def)
  define c where "c \<longleftrightarrow> (\<forall>i<t. bs ! i)"
  define a where "a = \<psi> (bs[t := False])"
  define b where "b = \<psi> (bs[t := True])"
  define \<phi> where "\<phi> = apply_gate (H (int t)) \<psi>"
  define \<chi> where "\<chi> = apply_gate (MCX (map int [0..<t]) (int t)) \<phi>"
  have p0: "\<phi> (bs[t := False]) = (a + b) / complex_of_real (sqrt 2)"
    using t(1) by (simp add: \<phi>_def a_def b_def)
  have p1: "\<phi> (bs[t := True]) = (a - b) / complex_of_real (sqrt 2)"
    using t(1) by (simp add: \<phi>_def a_def b_def)
  have ctrl: "list_all (\<lambda>k. bs[t := v] ! nat k) (map int [0..<t]) \<longleftrightarrow> c" for v
    by (auto simp: list_all_iff c_def)
  have x0: "\<chi> (bs[t := False]) = (if c then \<phi> (bs[t := True]) else \<phi> (bs[t := False]))"
    using t(1) by (simp add: \<chi>_def ctrl)
  have x1: "\<chi> (bs[t := True]) = (if c then \<phi> (bs[t := False]) else \<phi> (bs[t := True]))"
    using t(1) by (simp add: \<chi>_def ctrl)
  have all: "list_all (\<lambda>v. v) bs \<longleftrightarrow> c \<and> bs ! t"
  proof -
    have "length bs = Suc t" using len t(3) by simp
    then have "list_all (\<lambda>v. v) bs \<longleftrightarrow> (\<forall>i<Suc t. bs ! i)"
      by (simp only: list_all_length)
    also have "\<dots> \<longleftrightarrow> bs ! t \<and> (\<forall>i<t. bs ! i)"
      by (rule All_less_Suc)
    finally show ?thesis by (simp only: c_def conj_commute)
  qed
  have out: "simulate [H (int n - 1), MCX (map int [0..<n - 1]) (int n - 1), H (int n - 1)] \<psi> bs
      = (\<chi> (bs[t := False]) + (if bs ! t then - 1 else 1) * \<chi> (bs[t := True]))
          / complex_of_real (sqrt 2)"
  proof -
    have "n - 1 = t" by (simp add: t_def)
    then have "simulate [H (int n - 1), MCX (map int [0..<n - 1]) (int n - 1), H (int n - 1)] \<psi>
        = simulate [H (int t), MCX (map int [0..<t]) (int t), H (int t)] \<psi>"
      by (simp only: t(2))
    then show ?thesis
      by (simp add: simulate_Cons \<chi>_def \<phi>_def del: apply_gate.simps(3))
  qed
  have neg: "(if bs ! t then - 1 else 1) * w = - w" if "bs ! t" for w :: complex
    using that by simp
  have pos: "(if bs ! t then - 1 else 1) * w = w" if "\<not> bs ! t" for w :: complex
    using that by simp
  show ?thesis
  proof (cases "bs ! t")
    case True
    then have "bs[t := True] = bs" by (metis list_update_id)
    then have v: "\<psi> bs = b" by (simp add: b_def)
    show ?thesis
    proof (cases c)
      case True
      have "\<chi> (bs[t := False]) = (a - b) / complex_of_real (sqrt 2)"
        and "\<chi> (bs[t := True]) = (a + b) / complex_of_real (sqrt 2)"
        using True by (simp_all only: x0 x1 p0 p1 if_True)
      then have "simulate [H (int n - 1), MCX (map int [0..<n - 1]) (int n - 1), H (int n - 1)] \<psi> bs
          = ((a - b) / complex_of_real (sqrt 2) - (a + b) / complex_of_real (sqrt 2))
              / complex_of_real (sqrt 2)"
        by (simp only: out neg [OF \<open>bs ! t\<close>] add_uminus_conv_diff)
      then show ?thesis using True \<open>bs ! t\<close> by (simp only: half_diff' all v) simp
    next
      case False
      have "\<chi> (bs[t := False]) = (a + b) / complex_of_real (sqrt 2)"
        and "\<chi> (bs[t := True]) = (a - b) / complex_of_real (sqrt 2)"
        using False by (simp_all only: x0 x1 p0 p1 if_False)
      then have "simulate [H (int n - 1), MCX (map int [0..<n - 1]) (int n - 1), H (int n - 1)] \<psi> bs
          = ((a + b) / complex_of_real (sqrt 2) - (a - b) / complex_of_real (sqrt 2))
              / complex_of_real (sqrt 2)"
        by (simp only: out neg [OF \<open>bs ! t\<close>] add_uminus_conv_diff)
      then show ?thesis using False by (simp only: half_diff all v) simp
    qed
  next
    case False
    then have "bs[t := False] = bs" by (metis list_update_id)
    then have v: "\<psi> bs = a" by (simp add: a_def)
    show ?thesis
    proof (cases c)
      case True
      have "\<chi> (bs[t := False]) = (a - b) / complex_of_real (sqrt 2)"
        and "\<chi> (bs[t := True]) = (a + b) / complex_of_real (sqrt 2)"
        using True by (simp_all only: x0 x1 p0 p1 if_True)
      then have "simulate [H (int n - 1), MCX (map int [0..<n - 1]) (int n - 1), H (int n - 1)] \<psi> bs
          = ((a - b) / complex_of_real (sqrt 2) + (a + b) / complex_of_real (sqrt 2))
              / complex_of_real (sqrt 2)"
        by (simp only: out pos [OF \<open>\<not> bs ! t\<close>])
      then show ?thesis using \<open>\<not> bs ! t\<close> by (simp only: half_sum' all v) simp
    next
      case False
      have "\<chi> (bs[t := False]) = (a + b) / complex_of_real (sqrt 2)"
        and "\<chi> (bs[t := True]) = (a - b) / complex_of_real (sqrt 2)"
        using False by (simp_all only: x0 x1 p0 p1 if_False)
      then have "simulate [H (int n - 1), MCX (map int [0..<n - 1]) (int n - 1), H (int n - 1)] \<psi> bs
          = ((a + b) / complex_of_real (sqrt 2) + (a - b) / complex_of_real (sqrt 2))
              / complex_of_real (sqrt 2)"
        by (simp only: out pos [OF \<open>\<not> bs ! t\<close>])
      then show ?thesis using False by (simp only: half_sum all v) simp
    qed
  qed
qed

section \<open>Facts about the oracle on two or more qubits\<close>

lemma bin_digits_chars:
  "set (bin_digits k) \<subseteq> {CHR ''0'', CHR ''1''}"
proof (induction k rule: bin_digits.induct)
  case (1 k)
  show ?case
  proof (cases "k < 2")
    case True
    then show ?thesis by (simp add: bin_digits.simps [of k])
  next
    case False
    with 1 show ?thesis by (simp add: bin_digits.simps [of k])
  qed
qed

lemma bin_digits_length:
  "k < 2 ^ n \<Longrightarrow> 0 < n \<Longrightarrow> length (bin_digits k) \<le> n"
proof (induction k arbitrary: n rule: bin_digits.induct)
  case (1 k)
  show ?case
  proof (cases "k < 2")
    case True
    then show ?thesis using "1.prems" by (simp add: bin_digits.simps [of k])
  next
    case False
    obtain m where m: "n = Suc m" using "1.prems"(2) by (cases n) auto
    have "m \<noteq> 0" using False "1.prems"(1) m by (cases m) auto
    moreover have "k div 2 < 2 ^ m" using "1.prems"(1) m by auto
    ultimately have "length (bin_digits (k div 2)) \<le> m"
      using "1.IH" [OF False, of m] by simp
    then show ?thesis using False m by (simp add: bin_digits.simps [of k])
  qed
qed

lemma format_bits_in_range:
  assumes "0 \<le> t" "t < 2 ^ n" "0 < n"
  shows "length (format_bits t n) = n"
    and "set (format_bits t n) \<subseteq> {CHR ''0'', CHR ''1''}"
proof -
  have "nat t < 2 ^ n" using assms(1,2) by (simp add: nat_less_iff)
  then have "length (bin_digits (nat t)) \<le> n" using assms(3) by (rule bin_digits_length)
  then show "length (format_bits t n) = n" using assms(1) by (simp add: format_bits_def)
  show "set (format_bits t n) \<subseteq> {CHR ''0'', CHR ''1''}"
    using assms(1) bin_digits_chars [of "nat t"] by (auto simp: format_bits_def)
qed

lemma flip_at_involution:
  "flip_at 0 bits (flip_at 0 bits bs) = bs"
  by (rule nth_equalityI) (simp_all add: nth_flip_at)

lemma flip_at_all_ones:
  assumes "length bits = length bs" "set bits \<subseteq> {CHR ''0'', CHR ''1''}"
  shows "list_all (\<lambda>v. v) (flip_at 0 bits bs) \<longleftrightarrow> bs = map (\<lambda>b. b = CHR ''1'') bits"
proof -
  have c: "bits ! i = CHR ''0'' \<or> bits ! i = CHR ''1''" if "i < length bs" for i
  proof -
    have "bits ! i \<in> set bits" using that assms(1) by simp
    then show ?thesis using assms(2) by auto
  qed
  have "list_all (\<lambda>v. v) (flip_at 0 bits bs) \<longleftrightarrow>
          (\<forall>i<length bs. if bits ! i = CHR ''0'' then \<not> bs ! i else bs ! i)"
    using assms(1) by (simp add: list_all_length nth_flip_at)
  also have "\<dots> \<longleftrightarrow> (\<forall>i<length bs. bs ! i = (bits ! i = CHR ''1''))"
    using c by auto
  also have "\<dots> \<longleftrightarrow> bs = map (\<lambda>b. b = CHR ''1'') bits"
    using assms(1) by (auto simp: list_eq_iff_nth_eq)
  finally show ?thesis .
qed

lemma oracle_gates_split:
  "oracle_gates qc n t =
     qc @ flip_zero_bits [] 0 (format_bits t n)
        @ (if 1 < n then [H (int n - 1), MCX (map int [0..<n - 1]) (int n - 1), H (int n - 1)]
           else [H (int n - 1), H (int n - 1)])
        @ flip_zero_bits [] 0 (format_bits t n)"
proof -
  define bits where "bits = format_bits t n"
  define F where "F = flip_zero_bits [] 0 bits"
  have a: "flip_zero_bits c 0 bits = c @ F" for c
    unfolding F_def by (rule flip_zero_bits_acc)
  show ?thesis
    unfolding oracle_gates_def Let_def bits_def [symmetric] a F_def [symmetric]
    by simp
qed

lemma basis_state_length:
  "0 \<le> t \<Longrightarrow> t < 2 ^ n \<Longrightarrow> 0 < n \<Longrightarrow> length (basis_state n t) = n"
  by (simp add: basis_state_def format_bits_in_range(1))

text \<open>
  On two or more qubits the oracle is the phase flip of the target: for
  \<open>0 \<le> t < 2 ^ n\<close> the emitted sequence negates the amplitude of the basis
  state numbered \<open>t\<close> and leaves every other amplitude as it is.
\<close>

lemma oracle_phase_flip:
  assumes n: "1 < n" and t: "0 \<le> t" "t < 2 ^ n" and len: "length bs = n"
  shows "simulate (oracle_gates [] n t) \<psi> bs =
           (if bs = basis_state n t then - \<psi> bs else \<psi> bs)"
proof -
  define bits where "bits = format_bits t n"
  define F where "F = flip_zero_bits [] (int 0) bits"
  define B where "B = [H (int n - 1), MCX (map int [0..<n - 1]) (int n - 1), H (int n - 1)]"
  have pos: "0 < n" using n by simp
  have bl: "length bits = length bs"
    using format_bits_in_range(1) [OF t pos] len by (simp add: bits_def)
  have bc: "set bits \<subseteq> {CHR ''0'', CHR ''1''}"
    using format_bits_in_range(2) [OF t pos] by (simp add: bits_def)
  have split: "oracle_gates [] n t = F @ B @ F"
    using n by (simp add: oracle_gates_split F_def B_def bits_def)
  have F: "simulate F \<phi> xs = \<phi> (flip_at 0 bits xs)" for \<phi> xs
    unfolding F_def by (rule simulate_flip_zero_bits)
  have "simulate (oracle_gates [] n t) \<psi> bs = simulate B (simulate F \<psi>) (flip_at 0 bits bs)"
    by (simp only: split simulate_append F)
  also have "\<dots> = (if list_all (\<lambda>v. v) (flip_at 0 bits bs)
                   then - simulate F \<psi> (flip_at 0 bits bs)
                   else simulate F \<psi> (flip_at 0 bits bs))"
    unfolding B_def by (rule phase_block [OF _ n]) (simp add: len)
  also have "\<dots> = (if bs = basis_state n t then - \<psi> bs else \<psi> bs)"
  proof -
    have "list_all (\<lambda>v. v) (flip_at 0 bits bs) \<longleftrightarrow> bs = basis_state n t"
      using flip_at_all_ones [OF bl bc] by (simp add: basis_state_def bits_def)
    then show ?thesis by (simp only: F flip_at_involution)
  qed
  finally show ?thesis .
qed

lemma oracle_phase_flip_example:
  "simulate (oracle_gates [] 2 2) (\<lambda>bs. if bs = [True, False] then 1 else 0) [True, False] = - 1"
proof -
  have b: "basis_state 2 2 = [True, False]"
    by (simp add: basis_state_def format_bits_def bin_digits.simps [of 2] bin_digits_1)
  show ?thesis
    using oracle_phase_flip [of 2 2 "[True, False]" "\<lambda>bs. if bs = [True, False] then 1 else 0"] b
    by simp
qed

section \<open>Facts about the diffusion sequence\<close>

lemma commute_X_H:
  "q \<noteq> r \<Longrightarrow>
     apply_gate (X (int q)) (apply_gate (H (int r)) \<psi>) =
     apply_gate (H (int r)) (apply_gate (X (int q)) \<psi>)"
  by (rule ext) (simp add: list_update_swap [of q r])

lemma simulate_X_layer_H:
  "r \<notin> set qs \<Longrightarrow>
     simulate (map (\<lambda>q. X (int q)) qs) (apply_gate (H (int r)) \<psi>) =
     apply_gate (H (int r)) (simulate (map (\<lambda>q. X (int q)) qs) \<psi>)"
proof (induction qs arbitrary: \<psi>)
  case Nil
  then show ?case by simp
next
  case (Cons q qs)
  then have "q \<noteq> r" "r \<notin> set qs" by auto
  then show ?case
    using Cons.IH [of "apply_gate (X (int q)) \<psi>"]
    by (simp add: simulate_Cons commute_X_H del: apply_gate.simps)
qed

lemma simulate_H_layer_X:
  "r \<notin> set qs \<Longrightarrow>
     simulate (map (\<lambda>q. H (int q)) qs) (apply_gate (X (int r)) \<psi>) =
     apply_gate (X (int r)) (simulate (map (\<lambda>q. H (int q)) qs) \<psi>)"
proof (induction qs arbitrary: \<psi>)
  case Nil
  then show ?case by simp
next
  case (Cons q qs)
  then have "r \<noteq> q" "r \<notin> set qs" by auto
  then show ?case
    using Cons.IH [of "apply_gate (H (int q)) \<psi>"]
    by (simp add: simulate_Cons commute_X_H [symmetric] del: apply_gate.simps)
qed

lemma foldl_append_concat:
  "foldl (\<lambda>c q. c @ g q) qc qs = qc @ concat (map g qs)"
  by (induction qs arbitrary: qc) simp_all

lemma simulate_H_X_interleaved:
  "simulate (concat (map (\<lambda>q. [H (int q), X (int q)]) [0..<n])) \<psi> =
   simulate (map (\<lambda>q. H (int q)) [0..<n] @ map (\<lambda>q. X (int q)) [0..<n]) \<psi>"
proof (induction n)
  case 0
  then show ?case by simp
next
  case (Suc n)
  have "n \<notin> set [0..<n]" by simp
  then show ?case
    using Suc simulate_X_layer_H [of n "[0..<n]" "simulate (map (\<lambda>q. H (int q)) [0..<n]) \<psi>"]
    by (simp add: simulate_append simulate_Cons del: apply_gate.simps)
qed

lemma simulate_X_H_interleaved:
  "simulate (concat (map (\<lambda>q. [X (int q), H (int q)]) [0..<n])) \<psi> =
   simulate (map (\<lambda>q. X (int q)) [0..<n] @ map (\<lambda>q. H (int q)) [0..<n]) \<psi>"
proof (induction n)
  case 0
  then show ?case by simp
next
  case (Suc n)
  have "n \<notin> set [0..<n]" by simp
  then show ?case
    using Suc simulate_H_layer_X [of n "[0..<n]" "simulate (map (\<lambda>q. X (int q)) [0..<n]) \<psi>"]
    by (simp add: simulate_append simulate_Cons del: apply_gate.simps)
qed

lemma flip_zero_bits_zeros:
  "flip_zero_bits [] (int q) (replicate m CHR ''0'') = map (\<lambda>i. X (int i)) [q..<q + m]"
proof (induction m arbitrary: q)
  case 0
  then show ?case by simp
next
  case (Suc m)
  have "flip_zero_bits [] (int q) (replicate (Suc m) CHR ''0'')
          = [X (int q)] @ flip_zero_bits [] (int (Suc q)) (replicate m CHR ''0'')"
    using flip_zero_bits_acc [of "[X (int q)]" "int (Suc q)" "replicate m CHR ''0''"]
    by (simp add: add.commute)
  also have "\<dots> = X (int q) # map (\<lambda>i. X (int i)) [Suc q..<Suc q + m]"
    by (simp only: Suc append_Cons append_Nil)
  also have "\<dots> = map (\<lambda>i. X (int i)) [q..<q + Suc m]"
    by (simp add: upt_conv_Cons)
  finally show ?case .
qed

lemma format_bits_zero: "0 < n \<Longrightarrow> format_bits 0 n = replicate n CHR ''0''"
  by (cases n) (simp_all add: format_bits_def bin_digits_0 replicate_append_same)


lemma diffusion_split:
  "diffusion qc n =
     qc @ concat (map (\<lambda>q. [H (int q), X (int q)]) [0..<n])
        @ (if 1 < n then [H (int n - 1), MCX (map int [0..<n - 1]) (int n - 1), H (int n - 1)]
           else [H (int n - 1), H (int n - 1)])
        @ concat (map (\<lambda>q. [X (int q), H (int q)]) [0..<n])"
  by (simp add: diffusion_def Let_def foldl_append_concat)

lemma oracle_gates_zero_split:
  assumes "0 < n"
  shows "oracle_gates [] n 0 =
     map (\<lambda>q. X (int q)) [0..<n]
       @ (if 1 < n then [H (int n - 1), MCX (map int [0..<n - 1]) (int n - 1), H (int n - 1)]
          else [H (int n - 1), H (int n - 1)])
       @ map (\<lambda>q. X (int q)) [0..<n]"
proof -
  have "flip_zero_bits [] 0 (format_bits 0 n) = map (\<lambda>q. X (int q)) [0..<n]"
    using flip_zero_bits_zeros [of 0 n] by (simp add: format_bits_zero [OF assms])
  then show ?thesis by (simp only: oracle_gates_split append_Nil)
qed

text \<open>
  Claim C7, as the code has it. For every \<open>n \<ge> 1\<close> the sequence that
  \<^verbatim>\<open>_diffusion\<close> emits acts on every amplitude vector as the sequence made
  of a Hadamard gate on every qubit, the gates of the oracle for target 0, and
  a Hadamard gate on every qubit.
\<close>

theorem diffusion_acts_as_oracle_zero:
  assumes "0 < n"
  shows "simulate (diffusion [] n) \<psi> =
         simulate (map (\<lambda>q. H (int q)) [0..<n] @ oracle_gates [] n 0
                     @ map (\<lambda>q. H (int q)) [0..<n]) \<psi>"
proof -
  define B where
    "B = (if 1 < n then [H (int n - 1), MCX (map int [0..<n - 1]) (int n - 1), H (int n - 1)]
          else [H (int n - 1), H (int n - 1)])"
  have d: "diffusion [] n =
      concat (map (\<lambda>q. [H (int q), X (int q)]) [0..<n]) @ B
        @ concat (map (\<lambda>q. [X (int q), H (int q)]) [0..<n])"
    by (simp only: diffusion_split B_def append_Nil)
  have o: "oracle_gates [] n 0 = map (\<lambda>q. X (int q)) [0..<n] @ B @ map (\<lambda>q. X (int q)) [0..<n]"
    by (simp only: oracle_gates_zero_split [OF assms] B_def)
  show ?thesis
    by (simp only: d o simulate_append simulate_H_X_interleaved simulate_X_H_interleaved)
qed

theorem diffusion_acts_as_oracle_zero_witness:
  "(0::nat) < 2 \<and>
   simulate (diffusion [] 2) (\<lambda>bs. if bs = [False, True] then 1 else 0) =
   simulate (map (\<lambda>q. H (int q)) [0..<2] @ oracle_gates [] 2 0 @ map (\<lambda>q. H (int q)) [0..<2])
     (\<lambda>bs. if bs = [False, True] then 1 else 0)"
  using diffusion_acts_as_oracle_zero [of 2 "\<lambda>bs. if bs = [False, True] then 1 else 0"]
  by simp

text \<open>
  The sequences of claim C7 are not the same list: on two qubits the code
  emits \<open>H 0, X 0, H 1, X 1\<close> where the sequence built from the oracle starts
  \<open>H 0, H 1, X 0, X 1\<close>.
\<close>

theorem diffusion_sequence_counterexample:
  "diffusion [] 2 \<noteq> map (\<lambda>q. H (int q)) [0..<2] @ oracle_gates [] 2 0 @ map (\<lambda>q. H (int q)) [0..<2]"
  by (simp add: diffusion_split oracle_gates_zero_split upt_conv_Cons)

lemma diffusion_one_qubit:
  "diffusion [] 1 = map (\<lambda>q. H (int q)) [0..<1] @ oracle_gates [] 1 0 @ map (\<lambda>q. H (int q)) [0..<1]"
  by (simp add: diffusion_split oracle_gates_zero_split)

section \<open>Well-formed gates and the iteration count\<close>

lemma flip_zero_bits_ok:
  "q + length bits \<le> n \<Longrightarrow> list_all (gate_ok n) (flip_zero_bits [] (int q) bits)"
proof (induction bits arbitrary: q)
  case Nil
  then show ?case by simp
next
  case (Cons b bits)
  have s: "int q + 1 = int (Suc q)" by simp
  have ih: "list_all (gate_ok n) (flip_zero_bits [] (int (Suc q)) bits)"
    using Cons.IH [of "Suc q"] Cons.prems by simp
  show ?case
  proof (cases "b = CHR ''0''")
    case True
    have "flip_zero_bits [] (int q) (b # bits) = [X (int q)] @ flip_zero_bits [] (int (Suc q)) bits"
      using True flip_zero_bits_acc [of "[X (int q)]" "int (Suc q)" bits] by (simp add: s)
    then show ?thesis using ih Cons.prems by simp
  next
    case False
    then show ?thesis using ih by (simp add: s)
  qed
qed

text \<open>
  In range, every gate of the oracle is on qubits of the register, and no
  control of the controlled gate is its target.
\<close>

lemma oracle_gates_ok:
  assumes "0 \<le> t" "t < 2 ^ n" "0 < n"
  shows "list_all (gate_ok n) (oracle_gates [] n t)"
proof -
  have "list_all (gate_ok n) (flip_zero_bits [] (int 0) (format_bits t n))"
    using format_bits_in_range(1) [OF assms] by (intro flip_zero_bits_ok) simp
  then show ?thesis
    using assms(3) by (auto simp: oracle_gates_split list_all_iff)
qed

text \<open>
  Whatever the floating-point expression gives, \<^verbatim>\<open>max(1, ...)\<close> makes the
  iteration count that \<^verbatim>\<open>quantum_search\<close> stores at least 1.
\<close>

lemma quantum_search_iterations:
  "quantum_search e self target_hash len = Inr (r, self') \<Longrightarrow> 1 \<le> quantum_iterations self'"
  by (auto simp: quantum_search_def Let_def split: sum.splits option.splits if_splits)

end
